theory Spec2Isabelle
  imports Complex_Main "HOL-Library.Stream"
begin

section \<open>The values of type \<^verbatim>\<open>double\<close>\<close>

text \<open>
  The filter and its demo compute on C++ \<^verbatim>\<open>double\<close>s, that is on IEEE 754 binary64 with
  the default rounding (to nearest, ties to even). A value is a finite number, the negative
  zero, an infinity or a NaN; \<open>Fin 0\<close> is the positive zero. A finite result of an
  operation is the exact real result rounded: to 53 significant bits in the normal range,
  to a multiple of \<open>2 powi -1074\<close> below \<open>2 powi -1022\<close>, to an infinity when the rounded
  magnitude reaches \<open>2 powi 1024\<close>, and to a zero of the result's sign when it rounds to
  nothing. The numbers a program can hold are those that rounding leaves alone
  (\<open>is_double\<close>); the operations are defined on every real all the same.
\<close>

datatype double = Fin real | NZero | PInf | NInf | NaN

text \<open>Rounding a real to the nearest integer, a tie to the even one.\<close>

definition rne :: "real \<Rightarrow> int" where
  "rne t = (let n = \<lfloor>t\<rfloor>; f = t - of_int n
            in if f < 1 / 2 then n else if 1 / 2 < f then n + 1
               else if even n then n else n + 1)"

text \<open>
  The binary exponent of a positive real, the \<open>e\<close> with \<open>2 powi e \<le> a < 2 powi (e + 1)\<close>,
  found by comparing with the powers of two whose exponents are 512, 256, down to 1; it is
  exact between \<open>2 powi -1024\<close> and \<open>2 powi 1024\<close>.
\<close>

fun norm_up :: "nat list \<Rightarrow> real \<Rightarrow> int \<Rightarrow> int" where
  "norm_up [] a e = e"
| "norm_up (k # ks) a e =
     (if 2 ^ k \<le> a then norm_up ks (a / 2 ^ k) (e + int k) else norm_up ks a e)"

fun norm_down :: "nat list \<Rightarrow> real \<Rightarrow> int \<Rightarrow> int" where
  "norm_down [] a e = e"
| "norm_down (k # ks) a e =
     (if a * 2 ^ k < 1 then norm_down ks (a * 2 ^ k) (e - int k) else norm_down ks a e)"

definition shifts :: "nat list" where
  "shifts = [512, 256, 128, 64, 32, 16, 8, 4, 2, 1]"

definition expo :: "real \<Rightarrow> int" where
  "expo a = (if 1 \<le> a then norm_up shifts a 0 else norm_down shifts a 0 - 1)"

text \<open>
  The exponent that fixes the spacing of the doubles around \<open>a\<close> (\<open>-1022\<close> for the
  subnormal numbers, \<open>1023\<close> from \<open>2 powi 1023\<close> on), the spacing itself, and the rounding
  of a magnitude and of a signed real.
\<close>

definition binade :: "real \<Rightarrow> int" where
  "binade a = expo (min (max a (1 / 2 ^ 1022)) (2 ^ 1023))"

definition quantum :: "real \<Rightarrow> real" where
  "quantum a = 2 powi (binade a - 52)"

definition round_mag :: "real \<Rightarrow> real" where
  "round_mag a = of_int (rne (a / quantum a)) * quantum a"

definition round64 :: "real \<Rightarrow> double" where
  "round64 x =
     (if x = 0 then Fin 0
      else let r = round_mag \<bar>x\<bar>
           in if 2 ^ 1024 \<le> r then (if 0 < x then PInf else NInf)
              else if r = 0 then (if 0 < x then Fin 0 else NZero)
              else Fin (if 0 < x then r else - r))"

text \<open>The value and the sign of a finite double or a zero; signed zeros and infinities.\<close>

fun val :: "double \<Rightarrow> real" where
  "val (Fin a) = a"
| "val x = 0"

fun neg :: "double \<Rightarrow> bool" where
  "neg (Fin a) = (a < 0)"
| "neg NZero = True"
| "neg NInf = True"
| "neg x = False"

definition zero_of :: "bool \<Rightarrow> double" where
  "zero_of s = (if s then NZero else Fin 0)"

definition inf_of :: "bool \<Rightarrow> double" where
  "inf_of s = (if s then NInf else PInf)"

text \<open>
  The operations of IEEE 754: NaN is contagious, \<open>\<infinity> - \<infinity>\<close>, \<open>0 \<cdot> \<infinity>\<close>, \<open>0 / 0\<close> and
  \<open>\<infinity> / \<infinity>\<close> are NaN, a non-zero value divided by a zero is an infinity, the sign of a
  product or quotient is the exclusive or of the signs, an exact sum of zero is \<open>+0\<close>
  unless both summands are \<open>-0\<close>, and \<open>x - y\<close> is \<open>x + (-y)\<close>.
\<close>

instantiation double :: "{zero, one, plus, uminus, times, divide, abs}"
begin

definition zero_double :: double where
  "zero_double = Fin 0"

definition one_double :: double where
  "one_double = Fin 1"

fun plus_double :: "double \<Rightarrow> double \<Rightarrow> double" where
  "plus_double NaN y = NaN"
| "plus_double x NaN = NaN"
| "plus_double PInf NInf = NaN"
| "plus_double NInf PInf = NaN"
| "plus_double PInf y = PInf"
| "plus_double x PInf = PInf"
| "plus_double NInf y = NInf"
| "plus_double x NInf = NInf"
| "plus_double x y =
     (if val x + val y = 0 then (if x = NZero \<and> y = NZero then NZero else Fin 0)
      else round64 (val x + val y))"

fun uminus_double :: "double \<Rightarrow> double" where
  "uminus_double (Fin a) = (if a = 0 then NZero else Fin (- a))"
| "uminus_double NZero = Fin 0"
| "uminus_double PInf = NInf"
| "uminus_double NInf = PInf"
| "uminus_double NaN = NaN"

fun times_double :: "double \<Rightarrow> double \<Rightarrow> double" where
  "times_double NaN y = NaN"
| "times_double x NaN = NaN"
| "times_double PInf PInf = PInf"
| "times_double PInf NInf = NInf"
| "times_double NInf PInf = NInf"
| "times_double NInf NInf = PInf"
| "times_double PInf y = (if val y = 0 then NaN else inf_of (neg y))"
| "times_double NInf y = (if val y = 0 then NaN else inf_of (\<not> neg y))"
| "times_double x PInf = (if val x = 0 then NaN else inf_of (neg x))"
| "times_double x NInf = (if val x = 0 then NaN else inf_of (\<not> neg x))"
| "times_double x y =
     (if val x * val y = 0 then zero_of (neg x \<noteq> neg y) else round64 (val x * val y))"

fun divide_double :: "double \<Rightarrow> double \<Rightarrow> double" where
  "divide_double NaN y = NaN"
| "divide_double x NaN = NaN"
| "divide_double PInf PInf = NaN"
| "divide_double PInf NInf = NaN"
| "divide_double NInf PInf = NaN"
| "divide_double NInf NInf = NaN"
| "divide_double PInf y = inf_of (neg y)"
| "divide_double NInf y = inf_of (\<not> neg y)"
| "divide_double x PInf = zero_of (neg x)"
| "divide_double x NInf = zero_of (\<not> neg x)"
| "divide_double x y =
     (if val y = 0 then (if val x = 0 then NaN else inf_of (neg x \<noteq> neg y))
      else if val x = 0 then zero_of (neg x \<noteq> neg y)
      else round64 (val x / val y))"

fun abs_double :: "double \<Rightarrow> double" where
  "abs_double (Fin a) = Fin \<bar>a\<bar>"
| "abs_double NZero = Fin 0"
| "abs_double PInf = PInf"
| "abs_double NInf = PInf"
| "abs_double NaN = NaN"

instance ..

end

instantiation double :: "{minus, inverse}"
begin

definition minus_double :: "double \<Rightarrow> double \<Rightarrow> double" where
  "minus_double x y = x + (- y)"

definition inverse_double :: "double \<Rightarrow> double" where
  "inverse_double x = divide 1 x"

instance ..

end

text \<open>The conversion \<^verbatim>\<open>(double)n\<close> of an \<^verbatim>\<open>int\<close>; no 32-bit value is rounded.\<close>

definition double_of_int :: "int \<Rightarrow> double" where
  "double_of_int n = round64 (of_int n)"

fun is_double :: "double \<Rightarrow> bool" where
  "is_double (Fin a) = (round64 a = Fin a)"
| "is_double x = True"

section \<open>The filter: \<^verbatim>\<open>kalman_filter_1d.cpp\<close>\<close>

text \<open>
  The class has four \<^verbatim>\<open>double\<close> members, the ones its constructor stores. The source
  spells the first with the micro sign; it is \<open>mu\<close> here. The repository holds the file
  twice (beside the demo and in the map-generation exercise); the two copies differ only in
  writing \<^verbatim>\<open>this->\<close> before two members of the constructor.
\<close>

record kalman_filter_1d =
  mu :: double
  sigma :: double
  process_noise :: double
  measurement_noise :: double

text \<open>
  The error conditions are the two the specification names. No function of the source
  throws, so every operation below ends in \<open>Inr\<close>; the result type is there for the
  statements that say otherwise.
\<close>

datatype error = InvalidParameter | InvalidState

text \<open>
  The constructor: four assignments, in the source's order, and no check of any argument.
\<close>

definition kalman_filter_1d_ctor ::
  "double \<Rightarrow> double \<Rightarrow> double \<Rightarrow> double \<Rightarrow> error + kalman_filter_1d" where
  "kalman_filter_1d_ctor init_mu init_sigma process_noise' measurement_noise' =
     Inr \<lparr>mu = init_mu, sigma = init_sigma,
          process_noise = process_noise', measurement_noise = measurement_noise'\<rparr>"

text \<open>
  \<^verbatim>\<open>predict\<close> and \<^verbatim>\<open>correct_by_measurement\<close> are two assignments each; the second
  assignment reads the object the first one has already changed.
\<close>

definition predict :: "kalman_filter_1d \<Rightarrow> double \<Rightarrow> error + kalman_filter_1d" where
  "predict this u =
     (let this1 = this\<lparr>mu := mu this + u\<rparr>;
          this2 = this1\<lparr>sigma := sigma this1 + process_noise this1\<rparr>
      in Inr this2)"

definition correct_by_measurement :: "kalman_filter_1d \<Rightarrow> double \<Rightarrow> error + kalman_filter_1d" where
  "correct_by_measurement this z =
     (let this1 = this\<lparr>mu := (measurement_noise this * mu this + sigma this * z)
                                / (measurement_noise this + sigma this)\<rparr>;
          this2 = this1\<lparr>sigma := 1 / (1 / measurement_noise this1 + 1 / sigma this1)\<rparr>
      in Inr this2)"

definition get_current_state_estimate :: "kalman_filter_1d \<Rightarrow> double" where
  "get_current_state_estimate this = mu this"

definition get_current_uncertainty :: "kalman_filter_1d \<Rightarrow> double" where
  "get_current_uncertainty this = sigma this"



section \<open>The demo: \<^verbatim>\<open>main\<close> of \<^verbatim>\<open>kalman_filter_1d_demo.cpp\<close>\<close>

text \<open>
  The state of \<^verbatim>\<open>main\<close> is its local variables that live across iterations. The local
  that the source spells with the micro sign, the ground-truth position, is \<open>main_mu\<close>.
  The two random engines with their normal distributions are the streams of the samples
  they deliver: a draw reads the head and leaves the tail. \<^verbatim>\<open>simulation_step\<close> is a C++
  \<^verbatim>\<open>int\<close> that the loop keeps between 0 and 100000, far from overflow.
\<close>

record main_state =
  main_mu :: double
  mu_naive_est :: double
  myFilter :: kalman_filter_1d
  generator :: "double stream"
  generator2 :: "double stream"
  simulation_step :: int
  error_measurement :: double
  error_naive :: double
  error_kf :: double

text \<open>The statements of \<^verbatim>\<open>main\<close> before the loop (the image and the printing left out).\<close>

definition main_init :: "double stream \<Rightarrow> double stream \<Rightarrow> error + main_state" where
  "main_init g g2 =
     (let mu0 = Fin 5;
          sigma0 = Fin (3 / 4);
          process_noise0 = Fin 10;
          measurement_noise0 = Fin 10;
          mu_naive_est0 = mu0
      in case kalman_filter_1d_ctor mu0 sigma0 process_noise0 (Fin 1 * measurement_noise0) of
           Inl e \<Rightarrow> Inl e
         | Inr f \<Rightarrow>
             Inr \<lparr>main_mu = mu0, mu_naive_est = mu_naive_est0, myFilter = f,
                  generator = g, generator2 = g2, simulation_step = 0,
                  error_measurement = Fin 0, error_naive = Fin 0, error_kf = Fin 0\<rparr>)"

text \<open>
  One iteration of the \<^verbatim>\<open>while\<close> loop, statement by statement (steps 1 to 7 and 9 of the
  source's comments). Step 8, the drawing and key-press block with its \<^verbatim>\<open>break\<close>, is
  compiled under \<^verbatim>\<open>#define VISUALIZATION false\<close> and never runs. The measurement \<^verbatim>\<open>z\<close>
  is local to the iteration and is returned beside the new state. \<^verbatim>\<open>abs\<close> is the
  \<^verbatim>\<open>double\<close> overload.
\<close>

definition loop_body :: "main_state \<Rightarrow> error + (main_state \<times> double)" where
  "loop_body s0 =
     (let u = Fin 3;
          s1 = s0\<lparr>mu_naive_est := mu_naive_est s0 + u\<rparr>;
          s2 = s1\<lparr>main_mu := main_mu s1 + u + shd (generator s1),
                  generator := stl (generator s1)\<rparr>;
          z = main_mu s2 + shd (generator2 s2);
          s3 = s2\<lparr>generator2 := stl (generator2 s2)\<rparr>
      in case predict (myFilter s3) u of
           Inl e \<Rightarrow> Inl e
         | Inr f1 \<Rightarrow>
            (case correct_by_measurement f1 z of
               Inl e \<Rightarrow> Inl e
             | Inr f2 \<Rightarrow>
                (let s4 = s3\<lparr>myFilter := f2\<rparr>;
                     N = double_of_int (simulation_step s4);
                     s5 = s4\<lparr>error_measurement :=
                            (error_measurement s4 * N + \<bar>z - main_mu s4\<bar>) / (N + 1)\<rparr>;
                     s6 = s5\<lparr>error_naive :=
                            (error_naive s5 * N + \<bar>mu_naive_est s5 - main_mu s5\<bar>) / (N + 1)\<rparr>;
                     s7 = s6\<lparr>error_kf :=
                            (error_kf s6 * N
                               + \<bar>get_current_state_estimate (myFilter s6) - main_mu s6\<bar>)
                            / (N + 1)\<rparr>;
                     s8 = s7\<lparr>simulation_step := simulation_step s7 + 1\<rparr>
                 in Inr (s8, z))))"

text \<open>The loop \<^verbatim>\<open>while (simulation_step<100000)\<close>; it ends because every iteration counts up.\<close>

function main_loop :: "main_state \<Rightarrow> error + main_state" where
  "main_loop s =
     (if simulation_step s < 100000
      then (case loop_body s of Inl e \<Rightarrow> Inl e | Inr (s', z) \<Rightarrow> main_loop s')
      else Inr s)"
  by pat_completeness auto
termination
  by (relation "measure (\<lambda>s. nat (100000 - simulation_step s))")
     (auto simp: loop_body_def Let_def predict_def correct_by_measurement_def)

definition main :: "double stream \<Rightarrow> double stream \<Rightarrow> error + main_state" where
  "main g g2 = (case main_init g g2 of Inl e \<Rightarrow> Inl e | Inr s \<Rightarrow> main_loop s)"

text \<open>
  The first \<open>k\<close> iterations: the state they end in, and the trace of what each iteration
  leaves behind (its state and its measurement).
\<close>

fun steps :: "nat \<Rightarrow> main_state \<Rightarrow> error + main_state" where
  "steps 0 s = Inr s"
| "steps (Suc k) s = (case loop_body s of Inl e \<Rightarrow> Inl e | Inr (s', z) \<Rightarrow> steps k s')"

fun run_trace :: "nat \<Rightarrow> main_state \<Rightarrow> error + (main_state \<times> double) list" where
  "run_trace 0 s = Inr []"
| "run_trace (Suc k) s =
     (case loop_body s of
        Inl e \<Rightarrow> Inl e
      | Inr (s', z) \<Rightarrow>
         (case run_trace k s' of Inl e \<Rightarrow> Inl e | Inr tr \<Rightarrow> Inr ((s', z) # tr)))"

text \<open>
  The three absolute errors of an iteration, as lines 219 to 221 of the demo compute them
  from the values the iteration has just produced.
\<close>

definition abs_error_measurement :: "main_state \<times> double \<Rightarrow> double" where
  "abs_error_measurement sz = \<bar>snd sz - main_mu (fst sz)\<bar>"

definition abs_error_naive :: "main_state \<times> double \<Rightarrow> double" where
  "abs_error_naive sz = \<bar>mu_naive_est (fst sz) - main_mu (fst sz)\<bar>"

definition abs_error_kf :: "main_state \<times> double \<Rightarrow> double" where
  "abs_error_kf sz = \<bar>get_current_state_estimate (myFilter (fst sz)) - main_mu (fst sz)\<bar>"

section \<open>Notions used in the proofs\<close>

text \<open>
  A list of shifts in which every entry is one more than the sum of the later ones, as
  \<open>shifts\<close> is; the range on which the exponent is taken; and the doubles that are
  neither negative nor NaN.
\<close>

fun halving :: "nat list \<Rightarrow> bool" where
  "halving [] = True"
| "halving (k # ks) = (k = sum_list ks + 1 \<and> halving ks)"

definition clamp :: "real \<Rightarrow> real" where
  "clamp a = min (max a (1 / 2 ^ 1022)) (2 ^ 1023)"


text \<open>
  The finite doubles (a number or the negative zero); the unit roundoff and the largest
  rounding error of a subnormal result; and the tolerance that the corrected estimate
  keeps, relative to the magnitude \<open>X\<close> of the values that are fused.
\<close>

fun is_fin :: "double \<Rightarrow> bool" where
  "is_fin (Fin a) = True"
| "is_fin NZero = True"
| "is_fin x = False"

definition u64 :: real where
  "u64 = 1 / 2 ^ 53"

definition h64 :: real where
  "h64 = 1 / 2 ^ 1075"

definition tolerance :: "real \<Rightarrow> real" where
  "tolerance X = X / 2 ^ 49 + 1 / 2 ^ 1071"

section \<open>Rounding\<close>

lemma rne_cases:
  "rne t = \<lfloor>t\<rfloor> \<and> t - of_int \<lfloor>t\<rfloor> \<le> 1 / 2 \<or> rne t = \<lfloor>t\<rfloor> + 1 \<and> 1 / 2 \<le> t - of_int \<lfloor>t\<rfloor>"
  by (auto simp: rne_def Let_def)

lemma rne_bound: "\<bar>of_int (rne t) - t\<bar> \<le> 1 / 2"
  using rne_cases[of t] by (auto simp: abs_le_iff)

lemma rne_of_int: "rne (of_int n) = n"
  by (simp add: rne_def)

lemma rne_mono:
  assumes "s \<le> t"
  shows "rne s \<le> rne t"
proof (cases "\<lfloor>s\<rfloor> = \<lfloor>t\<rfloor>")
  case True
  then show ?thesis
    using assms by (auto simp: rne_def Let_def)
next
  case False
  then have "\<lfloor>s\<rfloor> + 1 \<le> \<lfloor>t\<rfloor>"
    using floor_mono[OF assms] by linarith
  moreover have "rne s \<le> \<lfloor>s\<rfloor> + 1"
    using rne_cases[of s] by auto
  moreover have "\<lfloor>t\<rfloor> \<le> rne t"
    using rne_cases[of t] by auto
  ultimately show ?thesis
    by linarith
qed

lemma rne_ge_int: "of_int n \<le> t \<Longrightarrow> n \<le> rne t"
  using rne_mono[of "of_int n" t] by (simp add: rne_of_int)

lemma rne_le_int: "t \<le> of_int n \<Longrightarrow> rne t \<le> n"
  using rne_mono[of t "of_int n"] by (simp add: rne_of_int)


lemma norm_up_spec:
  assumes "halving ks" "1 \<le> a" "a < 2 ^ (sum_list ks + 1)"
  shows "2 powi (norm_up ks a e - e) \<le> a \<and> a < 2 powi (norm_up ks a e - e + 1)"
  using assms
proof (induction ks arbitrary: a e)
  case Nil
  then show ?case by simp
next
  case (Cons k ks)
  have k: "k = sum_list ks + 1" and h: "halving ks"
    using Cons.prems(1) by simp_all
  show ?case
  proof (cases "2 ^ k \<le> a")
    case True
    have "a < 2 ^ (k + k)"
      using Cons.prems(3) k by simp
    then have "a / 2 ^ k < 2 ^ k"
      by (simp add: power_add pos_divide_less_eq)
    then have b: "a / 2 ^ k < 2 ^ (sum_list ks + 1)"
      using k by simp
    have a1: "1 \<le> a / 2 ^ k"
      using True by (simp add: pos_le_divide_eq)
    let ?r = "norm_up ks (a / 2 ^ k) (e + int k)"
    have ih: "2 powi (?r - (e + int k)) \<le> a / 2 ^ k" "a / 2 ^ k < 2 powi (?r - (e + int k) + 1)"
      using Cons.IH[OF h a1 b, of "e + int k"] by simp_all
    have e1: "(2::real) powi (?r - e) = 2 powi (?r - (e + int k)) * 2 ^ k"
      by (simp add: power_int_diff power_int_add)
    have e2: "(2::real) powi (?r - e + 1) = 2 powi (?r - (e + int k) + 1) * 2 ^ k"
      by (simp add: power_int_diff power_int_add)
    have "2 powi (?r - e) \<le> a"
      unfolding e1 using ih(1) by (simp add: pos_le_divide_eq)
    moreover have "a < 2 powi (?r - e + 1)"
      unfolding e2 using ih(2) by (simp add: pos_divide_less_eq)
    ultimately show ?thesis
      using True by simp
  next
    case False
    then have "a < 2 ^ (sum_list ks + 1)"
      using k by simp
    then show ?thesis
      using False Cons.IH[OF h Cons.prems(2), of e] by simp
  qed
qed

lemma norm_down_spec:
  assumes "halving ks" "a < 1" "1 \<le> a * 2 ^ (sum_list ks + 1)"
  shows "2 powi (norm_down ks a e - e - 1) \<le> a \<and> a < 2 powi (norm_down ks a e - e)"
  using assms
proof (induction ks arbitrary: a e)
  case Nil
  then show ?case by (simp add: power_int_minus field_simps)
next
  case (Cons k ks)
  have k: "k = sum_list ks + 1" and h: "halving ks"
    using Cons.prems(1) by simp_all
  show ?case
  proof (cases "a * 2 ^ k < 1")
    case True
    have "1 \<le> a * 2 ^ (k + k)"
      using Cons.prems(3) k by simp
    then have b: "1 \<le> a * 2 ^ k * 2 ^ (sum_list ks + 1)"
      using k by (simp add: power_add mult.assoc)
    let ?r = "norm_down ks (a * 2 ^ k) (e - int k)"
    have ih: "2 powi (?r - (e - int k) - 1) \<le> a * 2 ^ k" "a * 2 ^ k < 2 powi (?r - (e - int k))"
      using Cons.IH[OF h True b, of "e - int k"] by simp_all
    have e1: "(2::real) powi (?r - (e - int k) - 1) = 2 powi (?r - e - 1) * 2 ^ k"
      by (simp add: power_int_diff power_int_add)
    have e2: "(2::real) powi (?r - (e - int k)) = 2 powi (?r - e) * 2 ^ k"
      by (simp add: power_int_diff power_int_add)
    have "2 powi (?r - e - 1) \<le> a"
      using ih(1) unfolding e1 by simp
    moreover have "a < 2 powi (?r - e)"
      using ih(2) unfolding e2 by simp
    ultimately show ?thesis
      using True by simp
  next
    case False
    then have "1 \<le> a * 2 ^ (sum_list ks + 1)"
      using k by simp
    then show ?thesis
      using False Cons.IH[OF h Cons.prems(2), of e] by simp
  qed
qed

lemma halving_shifts: "halving shifts" "sum_list shifts = 1023"
  by (simp_all add: shifts_def)

lemma expo_spec:
  assumes "1 / 2 ^ 1024 \<le> a" "a < 2 ^ 1024"
  shows "2 powi (expo a) \<le> a" "a < 2 powi (expo a + 1)"
proof -
  have "2 powi (expo a) \<le> a \<and> a < 2 powi (expo a + 1)"
  proof (cases "1 \<le> a")
    case True
    then show ?thesis
      using norm_up_spec[OF halving_shifts(1) True, of 0] assms(2)
      by (simp add: expo_def halving_shifts(2))
  next
    case False
    have "1 \<le> a * 2 ^ 1024"
      using assms(1) by (simp add: pos_divide_le_eq)
    then show ?thesis
      using norm_down_spec[OF halving_shifts(1), of a 0] False
      by (simp add: expo_def halving_shifts(2))
  qed
  then show "2 powi (expo a) \<le> a" "a < 2 powi (expo a + 1)"
    by simp_all
qed



lemma clamp_range: "1 / 2 ^ 1022 \<le> clamp a" "clamp a \<le> 2 ^ 1023"
  by (simp_all add: clamp_def min_def max_def)

lemma clamp_mono: "a \<le> b \<Longrightarrow> clamp a \<le> clamp b"
  by (auto simp: clamp_def min_def max_def)

lemma binade_clamp: "binade a = expo (clamp a)"
  by (simp add: binade_def clamp_def)

lemma binade_spec: "2 powi (binade a) \<le> clamp a" "clamp a < 2 powi (binade a + 1)"
proof -
  have "(1::real) / 2 ^ 1024 \<le> 1 / 2 ^ 1022" "(2::real) ^ 1023 < 2 ^ 1024"
    by simp_all
  then have "1 / 2 ^ 1024 \<le> clamp a" "clamp a < 2 ^ 1024"
    using clamp_range[of a] by linarith+
  then show "2 powi (binade a) \<le> clamp a" "clamp a < 2 powi (binade a + 1)"
    unfolding binade_clamp by (rule expo_spec)+
qed

lemma pow2_less_imp:
  assumes "(2::real) powi m < 2 powi n"
  shows "m < n"
proof (rule ccontr)
  assume "\<not> m < n"
  then have "n \<le> m"
    by simp
  then have "(2::real) powi n \<le> 2 powi m"
    by (intro power_int_increasing) simp_all
  with assms show False
    by simp
qed

lemma binade_unique:
  assumes "2 powi e \<le> clamp a" "clamp a < 2 powi (e + 1)"
  shows "binade a = e"
proof -
  have "(2::real) powi e < 2 powi (binade a + 1)"
    using assms(1) binade_spec(2)[of a] by linarith
  moreover have "(2::real) powi (binade a) < 2 powi (e + 1)"
    using assms(2) binade_spec(1)[of a] by linarith
  ultimately show ?thesis
    using pow2_less_imp[of e "binade a + 1"] pow2_less_imp[of "binade a" "e + 1"] by linarith
qed

lemma binade_mono:
  assumes "a \<le> b"
  shows "binade a \<le> binade b"
proof -
  have "(2::real) powi (binade a) < 2 powi (binade b + 1)"
    using binade_spec(1)[of a] binade_spec(2)[of b] clamp_mono[OF assms] by linarith
  then show ?thesis
    using pow2_less_imp[of "binade a" "binade b + 1"] by linarith
qed

lemma binade_range: "- 1022 \<le> binade a" "binade a \<le> 1023"
proof -
  have "(2::real) powi (- 1022) < 2 powi (binade a + 1)"
    using binade_spec(2)[of a] clamp_range(1)[of a] by (simp add: power_int_minus field_simps)
  then show "- 1022 \<le> binade a"
    using pow2_less_imp[of "- 1022" "binade a + 1"] by linarith
  have "(2::real) powi (binade a) < 2 powi 1024"
    using binade_spec(1)[of a] clamp_range(2)[of a] by simp
  then show "binade a \<le> 1023"
    using pow2_less_imp[of "binade a" 1024] by linarith
qed

lemma binade_subnormal: "a \<le> 1 / 2 ^ 1022 \<Longrightarrow> binade a = - 1022"
proof -
  assume "a \<le> 1 / 2 ^ 1022"
  then have c: "clamp a = 1 / 2 ^ 1022"
    by (simp add: clamp_def min_def max_def)
  show ?thesis
    by (rule binade_unique) (simp_all add: c power_int_minus field_simps)
qed

lemma quantum_pos: "0 < quantum a"
  by (simp add: quantum_def)

lemma quantum_subnormal: "a \<le> 1 / 2 ^ 1022 \<Longrightarrow> quantum a = 1 / 2 ^ 1074"
  by (simp add: quantum_def binade_subnormal power_int_minus field_simps)

lemma quantum_normal:
  assumes "1 / 2 ^ 1022 \<le> a"
  shows "quantum a \<le> a / 2 ^ 52"
proof -
  have "clamp a \<le> a"
    using assms by (simp add: clamp_def min_def max_def)
  then have "2 powi (binade a) \<le> a"
    using binade_spec(1)[of a] by linarith
  moreover have "quantum a = 2 powi (binade a) / 2 ^ 52"
    by (simp add: quantum_def power_int_diff)
  ultimately show ?thesis
    by (simp add: divide_right_mono)
qed

lemma round_mag_error: "\<bar>round_mag a - a\<bar> \<le> quantum a / 2"
proof -
  let ?q = "quantum a"
  have "\<bar>of_int (rne (a / ?q)) - a / ?q\<bar> * ?q \<le> 1 / 2 * ?q"
    using rne_bound[of "a / ?q"] quantum_pos[of a] by (intro mult_right_mono) simp_all
  moreover have "round_mag a - a = (of_int (rne (a / ?q)) - a / ?q) * ?q"
    using quantum_pos[of a] by (simp add: round_mag_def field_simps)
  then have "\<bar>of_int (rne (a / ?q)) - a / ?q\<bar> * ?q = \<bar>round_mag a - a\<bar>"
    using quantum_pos[of a] by (simp add: abs_mult)
  ultimately show ?thesis
    by simp
qed

lemma round_mag_nonneg: "0 \<le> a \<Longrightarrow> 0 \<le> round_mag a"
proof -
  assume "0 \<le> a"
  then have "0 \<le> a / quantum a"
    using quantum_pos[of a] by simp
  then have "0 \<le> rne (a / quantum a)"
    using rne_ge_int[of 0] by simp
  then show ?thesis
    using quantum_pos[of a] by (simp add: round_mag_def)
qed

lemma round_mag_rel:
  assumes "0 \<le> a"
  shows "\<bar>round_mag a - a\<bar> \<le> a / 2 ^ 53 + 1 / 2 ^ 1075"
proof (cases "a \<le> 1 / 2 ^ 1022")
  case True
  then show ?thesis
    using round_mag_error[of a] quantum_subnormal[OF True] assms by simp
next
  case False
  then have "quantum a \<le> a / 2 ^ 52"
    using quantum_normal[of a] by simp
  then show ?thesis
    using round_mag_error[of a] by simp
qed


lemma binade_top: "2 ^ 1023 \<le> a \<Longrightarrow> binade a = 1023"
proof -
  assume "2 ^ 1023 \<le> a"
  then have c: "clamp a = 2 ^ 1023"
    by (simp add: clamp_def min_def max_def)
  show ?thesis
    by (rule binade_unique) (simp_all add: c)
qed

lemma round_mag_mono:
  assumes "a \<le> b"
  shows "round_mag a \<le> round_mag b"
proof (cases "binade a = binade b")
  case True
  then have q: "quantum a = quantum b"
    by (simp add: quantum_def)
  have "a / quantum b \<le> b / quantum b"
    using assms quantum_pos[of b] by (simp add: divide_right_mono)
  then have "rne (a / quantum b) \<le> rne (b / quantum b)"
    by (rule rne_mono)
  then show ?thesis
    using quantum_pos[of b] by (simp add: round_mag_def q)
next
  case False
  then have lt: "binade a < binade b"
    using binade_mono[OF assms] by simp
  let ?p = "(2::real) powi (binade b)"
  have "a < 2 ^ 1023"
    using binade_top[of a] lt binade_range(2)[of b] by fastforce
  then have "a \<le> clamp a"
    by (simp add: clamp_def min_def max_def)
  then have "a < 2 powi (binade a + 1)"
    using binade_spec(2)[of a] by linarith
  moreover have "(2::real) powi (binade a + 1) \<le> ?p"
    using lt by (intro power_int_increasing) simp_all
  ultimately have a: "a \<le> ?p"
    by linarith
  have ka: "?p / quantum a = of_int (2 ^ nat (binade b - binade a + 52))"
  proof -
    have "?p / quantum a = 2 powi (binade b - (binade a - 52))"
      by (simp add: quantum_def power_int_diff)
    also have "\<dots> = 2 powi (binade b - binade a + 52)"
      by (simp add: algebra_simps)
    also have "\<dots> = 2 ^ nat (binade b - binade a + 52)"
      using lt by (intro power_int_nonneg_exp) simp
    also have "\<dots> = of_int (2 ^ nat (binade b - binade a + 52))"
      by simp
    finally show ?thesis .
  qed
  have "a / quantum a \<le> ?p / quantum a"
    using a quantum_pos[of a] by (simp add: divide_right_mono)
  then have "rne (a / quantum a) \<le> 2 ^ nat (binade b - binade a + 52)"
    unfolding ka by (rule rne_le_int)
  then have "of_int (rne (a / quantum a)) \<le> ?p / quantum a"
    unfolding ka by linarith
  then have ra: "round_mag a \<le> ?p"
    using quantum_pos[of a] by (simp add: round_mag_def pos_le_divide_eq)
  have "1 / 2 ^ 1022 < b"
    using binade_subnormal[of b] lt binade_range(1)[of a] by fastforce
  then have "clamp b \<le> b"
    by (simp add: clamp_def min_def max_def)
  then have b: "?p \<le> b"
    using binade_spec(1)[of b] by linarith
  have kb: "?p / quantum b = of_int (2 ^ 52)"
    by (simp add: quantum_def power_int_diff)
  have "?p / quantum b \<le> b / quantum b"
    using b quantum_pos[of b] by (simp add: divide_right_mono)
  then have "2 ^ 52 \<le> rne (b / quantum b)"
    unfolding kb by (rule rne_ge_int)
  then have "?p / quantum b \<le> of_int (rne (b / quantum b))"
    unfolding kb by linarith
  then have "?p \<le> round_mag b"
    using quantum_pos[of b] by (simp add: round_mag_def pos_divide_le_eq)
  with ra show ?thesis
    by linarith
qed

lemma round64_pos:
  assumes "0 < x"
  shows "round64 x = PInf \<and> 2 ^ 1024 \<le> round_mag x
       \<or> round64 x = Fin (round_mag x) \<and> 0 \<le> round_mag x \<and> round_mag x < 2 ^ 1024"
  using assms round_mag_nonneg[of x] by (auto simp: round64_def Let_def)

lemma round64_neg:
  assumes "x < 0"
  shows "round64 x = NInf \<and> 2 ^ 1024 \<le> round_mag (- x)
       \<or> round64 x = NZero \<and> round_mag (- x) = 0
       \<or> round64 x = Fin (- round_mag (- x)) \<and> 0 < round_mag (- x) \<and> round_mag (- x) < 2 ^ 1024"
  using assms round_mag_nonneg[of "- x"] by (auto simp: round64_def Let_def)

section \<open>Signs and bounds of the correction step\<close>

lemmas ev = round64_def round_mag_def quantum_def binade_def expo_def shifts_def rne_def Let_def
  one_double_def zero_of_def inf_of_def minus_double_def










lemma round_mag_2_1022: "round_mag (2 ^ 1022) = 2 ^ 1022"
  by (simp add: ev)

lemma inverse_finite:
  assumes "1 / 2 ^ 1022 \<le> m"
  shows "\<exists>v. Fin 1 / Fin m = Fin v \<and> 0 \<le> v"
proof -
  have m: "0 < m"
    using assms by (meson less_le_trans zero_less_divide_1_iff zero_less_numeral zero_less_power)
  have "1 / m \<le> 1 / (1 / 2 ^ 1022)"
    using assms by (intro divide_left_mono) simp_all
  then have "1 / m \<le> 2 ^ 1022"
    by simp
  then have "round_mag (1 / m) \<le> round_mag (2 ^ 1022)"
    by (rule round_mag_mono)
  also have "\<dots> = 2 ^ 1022"
    by (rule round_mag_2_1022)
  also have "\<dots> < 2 ^ 1024"
    by simp
  finally have "round_mag (1 / m) < 2 ^ 1024" .
  then show ?thesis
    using round64_pos[of "1 / m"] m by auto
qed

lemma correct_zero:
  assumes "sigma this = Fin 0 \<or> sigma this = NZero"
    and "measurement_noise this = Fin m" and "1 / 2 ^ 1022 \<le> m"
  shows "\<exists>this'. correct_by_measurement this z = Inr this' \<and> sigma this' = sigma this
          \<and> mu this' = (measurement_noise this * mu this + sigma this * z)
                          / (measurement_noise this + sigma this)"
proof -
  obtain v where v: "Fin 1 / Fin m = Fin v"
    using inverse_finite[OF assms(3)] by blast
  show ?thesis
    using assms(1)
  proof
    assume "sigma this = Fin 0"
    then show ?thesis
      using assms(2) v
      by (simp add: correct_by_measurement_def Let_def one_double_def inf_of_def zero_of_def)
  next
    assume "sigma this = NZero"
    then show ?thesis
      using assms(2) v
      by (simp add: correct_by_measurement_def Let_def one_double_def inf_of_def zero_of_def)
  qed
qed

section \<open>Rounding errors of the operations\<close>

lemma round_mag_below_overflow:
  assumes "0 \<le> y" "y \<le> 2 ^ 1023"
  shows "round_mag y < 2 ^ 1024"
proof -
  have "round_mag y \<le> y + (y / 2 ^ 53 + 1 / 2 ^ 1075)"
    using round_mag_rel[OF assms(1)] by linarith
  also have "\<dots> \<le> 2 ^ 1023 + (2 ^ 1023 / 2 ^ 53 + 1 / 2 ^ 1075)"
    using assms(2) by (intro add_mono divide_right_mono) simp_all
  also have "\<dots> < 2 ^ 1024"
    by simp
  finally show ?thesis .
qed

lemma round64_val:
  assumes "\<bar>x\<bar> \<le> 2 ^ 1023"
  shows "is_fin (round64 x)"
    and "\<bar>val (round64 x) - x\<bar> \<le> \<bar>x\<bar> / 2 ^ 53 + 1 / 2 ^ 1075"
proof -
  have "is_fin (round64 x) \<and> \<bar>val (round64 x) - x\<bar> \<le> \<bar>x\<bar> / 2 ^ 53 + 1 / 2 ^ 1075"
  proof (cases "x = 0")
    case True
    then show ?thesis
      by (simp add: round64_def)
  next
    case False
    show ?thesis
    proof (cases "0 < x")
      case True
      then have "round_mag x < 2 ^ 1024"
        using assms by (intro round_mag_below_overflow) simp_all
      then have "round64 x = Fin (round_mag x)"
        using round64_pos[OF True] by auto
      then show ?thesis
        using round_mag_rel[of x] True by simp
    next
      case f: False
      then have n: "x < 0"
        using False by simp
      then have "round_mag (- x) < 2 ^ 1024"
        using assms by (intro round_mag_below_overflow) simp_all
      then have "round64 x = NZero \<and> round_mag (- x) = 0 \<or> round64 x = Fin (- round_mag (- x))"
        using round64_neg[OF n] by auto
      moreover have "\<bar>round_mag (- x) - (- x)\<bar> \<le> (- x) / 2 ^ 53 + 1 / 2 ^ 1075"
        using round_mag_rel[of "- x"] n by simp
      ultimately show ?thesis
        using n by (auto simp: abs_if split: if_splits)
    qed
  qed
  then show "is_fin (round64 x)"
    and "\<bar>val (round64 x) - x\<bar> \<le> \<bar>x\<bar> / 2 ^ 53 + 1 / 2 ^ 1075"
    by simp_all
qed

lemma plus_fin:
  "is_fin x \<Longrightarrow> is_fin y \<Longrightarrow>
   x + y = (if val x + val y = 0 then (if x = NZero \<and> y = NZero then NZero else Fin 0)
            else round64 (val x + val y))"
  by (cases x; cases y) simp_all

lemma times_fin:
  "is_fin x \<Longrightarrow> is_fin y \<Longrightarrow>
   x * y = (if val x * val y = 0 then zero_of (neg x \<noteq> neg y) else round64 (val x * val y))"
  by (cases x; cases y) simp_all

lemma divide_fin:
  "is_fin x \<Longrightarrow> is_fin y \<Longrightarrow> val y \<noteq> 0 \<Longrightarrow>
   x / y = (if val x = 0 then zero_of (neg x \<noteq> neg y) else round64 (val x / val y))"
  by (cases x; cases y) simp_all

lemma round64_zero: "round64 0 = Fin 0"
  by (simp add: round64_def)

lemma fin_add:
  assumes "is_fin x" "is_fin y" "\<bar>val x + val y\<bar> \<le> 2 ^ 1023"
  shows "is_fin (x + y)"
    and "\<bar>val (x + y) - (val x + val y)\<bar> \<le> \<bar>val x + val y\<bar> / 2 ^ 53 + 1 / 2 ^ 1075"
proof -
  have "is_fin (x + y) \<and> val (x + y) = val (round64 (val x + val y))"
    using round64_val(1)[OF assms(3)]
    by (auto simp: plus_fin[OF assms(1,2)] round64_zero)
  then show "is_fin (x + y)"
    and "\<bar>val (x + y) - (val x + val y)\<bar> \<le> \<bar>val x + val y\<bar> / 2 ^ 53 + 1 / 2 ^ 1075"
    using round64_val(2)[OF assms(3)] by simp_all
qed

lemma fin_mult:
  assumes "is_fin x" "is_fin y" "\<bar>val x * val y\<bar> \<le> 2 ^ 1023"
  shows "is_fin (x * y)"
    and "\<bar>val (x * y) - val x * val y\<bar> \<le> \<bar>val x * val y\<bar> / 2 ^ 53 + 1 / 2 ^ 1075"
proof -
  have "is_fin (x * y) \<and> val (x * y) = val (round64 (val x * val y))"
    using round64_val(1)[OF assms(3)]
    by (auto simp: times_fin[OF assms(1,2)] round64_zero zero_of_def)
  then show "is_fin (x * y)"
    and "\<bar>val (x * y) - val x * val y\<bar> \<le> \<bar>val x * val y\<bar> / 2 ^ 53 + 1 / 2 ^ 1075"
    using round64_val(2)[OF assms(3)] by simp_all
qed

lemma fin_divide:
  assumes "is_fin x" "is_fin y" "val y \<noteq> 0" "\<bar>val x / val y\<bar> \<le> 2 ^ 1023"
  shows "is_fin (x / y)"
    and "\<bar>val (x / y) - val x / val y\<bar> \<le> \<bar>val x / val y\<bar> / 2 ^ 53 + 1 / 2 ^ 1075"
proof -
  have "is_fin (x / y) \<and> val (x / y) = val (round64 (val x / val y))"
    using round64_val(1)[OF assms(4)] assms(3)
    by (auto simp: divide_fin[OF assms(1,2,3)] round64_zero zero_of_def)
  then show "is_fin (x / y)"
    and "\<bar>val (x / y) - val x / val y\<bar> \<le> \<bar>val x / val y\<bar> / 2 ^ 53 + 1 / 2 ^ 1075"
    using round64_val(2)[OF assms(4)] by simp_all
qed

lemma u64_h64: "0 < u64" "u64 \<le> 1 / 8" "0 < h64" "h64 \<le> 1 / 8" "h64 \<le> u64"
  by (simp_all add: u64_def h64_def)

lemma round64_err:
  assumes "\<bar>x\<bar> \<le> 2 ^ 1023"
  shows "\<bar>val (round64 x) - x\<bar> \<le> u64 * \<bar>x\<bar> + h64"
  using round64_val(2)[OF assms] by (simp add: u64_def h64_def)

lemma err_abs:
  fixes v x :: real
  assumes "\<bar>v - x\<bar> \<le> u64 * \<bar>x\<bar> + h64"
  shows "\<bar>v\<bar> \<le> 2 * \<bar>x\<bar> + 1"
proof -
  have "u64 * \<bar>x\<bar> \<le> 1 * \<bar>x\<bar>"
    using u64_h64 by (intro mult_right_mono) simp_all
  then show ?thesis
    using assms u64_h64(4) by linarith
qed

lemma fusion_error:
  fixes m s a z X vA vB vS vD r :: real
  assumes pos: "0 < m" "0 < s" "1 \<le> m + s"
    and X: "\<bar>a\<bar> \<le> X" "\<bar>z\<bar> \<le> X"
    and eA: "\<bar>vA - m * a\<bar> \<le> u64 * \<bar>m * a\<bar> + h64"
    and eB: "\<bar>vB - s * z\<bar> \<le> u64 * \<bar>s * z\<bar> + h64"
    and eS: "\<bar>vS - (vA + vB)\<bar> \<le> u64 * \<bar>vA + vB\<bar> + h64"
    and eD: "\<bar>vD - (m + s)\<bar> \<le> u64 * \<bar>m + s\<bar> + h64"
    and eR: "\<bar>r - vS / vD\<bar> \<le> u64 * \<bar>vS / vD\<bar> + h64"
  shows "\<bar>r - (m * a + s * z) / (m + s)\<bar> \<le> 16 * (u64 * X) + 16 * h64"
proof -
  define D where "D = m + s"
  define T where "T = (m * a + s * z) / D"
  define P where "P = D * X"
  define Q where "Q = vS / vD"
  define u where "u = u64"
  define h where "h = h64"
  have u: "0 < u" "u \<le> 1 / 8" and h: "0 < h" "h \<le> 1 / 8" "h \<le> u"
    using u64_h64 by (simp_all add: u_def h_def)
  have X0: "0 \<le> X"
    using X(1) by linarith
  have D1: "1 \<le> D" "0 < D"
    using pos by (simp_all add: D_def)
  have DT: "D * T = m * a + s * z"
    using D1 by (simp add: T_def)
  have mA: "\<bar>m * a\<bar> \<le> m * X"
    using pos(1) X(1) by (simp add: abs_mult mult_left_mono)
  have sZ: "\<bar>s * z\<bar> \<le> s * X"
    using pos(2) X(2) by (simp add: abs_mult mult_left_mono)
  have P_eq: "P = m * X + s * X"
    by (simp add: P_def D_def distrib_right)
  have P0: "0 \<le> P"
    using D1 X0 by (simp add: P_def)
  have uP: "0 \<le> u * P" and hX: "0 \<le> h * X" "h * X \<le> u * X"
    using u h P0 X0 by (simp_all add: mult_right_mono)
  have eA': "\<bar>vA - m * a\<bar> \<le> u * \<bar>m * a\<bar> + h"
    and eB': "\<bar>vB - s * z\<bar> \<le> u * \<bar>s * z\<bar> + h"
    and eS': "\<bar>vS - (vA + vB)\<bar> \<le> u * \<bar>vA + vB\<bar> + h"
    and eD': "\<bar>vD - D\<bar> \<le> u * D + h"
    and eR': "\<bar>r - Q\<bar> \<le> u * \<bar>Q\<bar> + h"
    using eA eB eS eD eR D1 by (simp_all add: u_def h_def D_def Q_def)
  have umA: "u * \<bar>m * a\<bar> \<le> u * (m * X)" and usZ: "u * \<bar>s * z\<bar> \<le> u * (s * X)"
    using mA sZ u(1) by (simp_all add: mult_left_mono)
  have uP_eq: "u * P = u * (m * X) + u * (s * X)"
    by (simp add: P_eq distrib_left)
  have s1: "\<bar>vA + vB - D * T\<bar> \<le> u * P + 2 * h"
    using eA' eB' umA usZ unfolding DT uP_eq by linarith
  have s2: "\<bar>D * T\<bar> \<le> P"
    using mA sZ unfolding DT P_eq by linarith
  have s3: "\<bar>vA + vB\<bar> \<le> P + u * P + 2 * h"
    using s1 s2 by linarith
  have "u * \<bar>vA + vB\<bar> \<le> u * (P + u * P + 2 * h)"
    using s3 u(1) by (simp add: mult_left_mono)
  also have "\<dots> = u * P + u * (u * P) + u * (2 * h)"
    by (simp add: distrib_left)
  also have "\<dots> \<le> u * P + u * P + h"
  proof -
    have "u * (u * P) \<le> 1 * (u * P)"
      using u uP by (intro mult_right_mono) simp_all
    moreover have "u * (2 * h) \<le> (1 / 8) * (2 * h)"
      using u h by (intro mult_right_mono) simp_all
    ultimately show ?thesis
      using h by linarith
  qed
  finally have s3u: "u * \<bar>vA + vB\<bar> \<le> 2 * (u * P) + h"
    by linarith
  have s4: "\<bar>vS - D * T\<bar> \<le> 3 * (u * P) + 4 * h"
    using eS' s3u s1 by linarith
  have "u * D \<le> (1 / 8) * D"
    using u D1 by (intro mult_right_mono) simp_all
  then have vD: "D / 2 \<le> vD" "0 < vD"
    using eD' h D1 by linarith+
  have T_abs: "\<bar>T\<bar> \<le> X"
  proof -
    have "\<bar>T\<bar> * D \<le> X * D"
      using s2 D1 by (simp add: abs_mult P_def mult.commute)
    then show ?thesis
      using D1(2) by simp
  qed
  have "\<bar>T * (D - vD)\<bar> = \<bar>T\<bar> * \<bar>D - vD\<bar>"
    by (simp add: abs_mult)
  also have "\<dots> \<le> X * (u * D + h)"
    using T_abs eD' X0 by (intro mult_mono) (simp_all add: abs_minus_commute)
  also have "\<dots> = u * P + h * X"
    by (simp add: P_def algebra_simps)
  finally have s6a: "\<bar>T * (D - vD)\<bar> \<le> u * P + h * X" .
  have "vS - T * vD = (vS - D * T) + T * (D - vD)"
    by (simp add: algebra_simps)
  then have s6: "\<bar>vS - T * vD\<bar> \<le> 4 * (u * P) + 4 * h + h * X"
    using s4 s6a by linarith
  define K where "K = 8 * (u * X) + 8 * h + 2 * (h * X)"
  have K0: "0 \<le> K"
    using u h X0 hX by (simp add: K_def)
  have qt: "(Q - T) * vD = vS - T * vD"
    using vD(2) by (simp add: Q_def left_diff_distrib)
  have "\<bar>Q - T\<bar> * vD = \<bar>(Q - T) * vD\<bar>"
    using vD(2) by (simp add: abs_mult)
  also have "\<dots> \<le> 4 * (u * P) + 4 * h + h * X"
    unfolding qt by (rule s6)
  also have "\<dots> \<le> 4 * (u * P) + (4 * h + h * X) * D"
  proof -
    have "(4 * h + h * X) * 1 \<le> (4 * h + h * X) * D"
      using D1 h hX by (intro mult_left_mono) simp_all
    then show ?thesis
      by (simp add: add.assoc)
  qed
  also have "\<dots> = K * (D / 2)"
    by (simp add: K_def P_def algebra_simps)
  also have "\<dots> \<le> K * vD"
    using K0 vD(1) by (intro mult_left_mono)
  finally have "\<bar>Q - T\<bar> * vD \<le> K * vD" .
  then have s7: "\<bar>Q - T\<bar> \<le> K"
    using vD(2) by simp
  have s8: "\<bar>Q\<bar> \<le> X + K"
    using s7 T_abs by linarith
  have "u * \<bar>Q\<bar> \<le> u * (X + K)"
    using s8 u(1) by (simp add: mult_left_mono)
  also have "\<dots> = u * X + u * K"
    by (simp add: distrib_left)
  also have "\<dots> \<le> u * X + (1 / 8) * K"
    using u K0 by (intro add_left_mono mult_right_mono) simp_all
  finally have s9: "u * \<bar>Q\<bar> \<le> u * X + K / 8"
    by simp
  have "\<bar>r - T\<bar> \<le> u * X + K / 8 + h + K"
    using eR' s9 s7 by linarith
  also have "\<dots> \<le> 16 * (u * X) + 16 * h"
  proof -
    define p where "p = u * X"
    define q where "q = h * X"
    have "0 \<le> q" "q \<le> p" "0 < h"
      using hX h by (simp_all add: p_def q_def)
    then have "p + (8 * p + 8 * h + 2 * q) / 8 + h + (8 * p + 8 * h + 2 * q) \<le> 16 * p + 16 * h"
      by argo
    then show ?thesis
      by (simp add: K_def p_def q_def)
  qed
  finally show ?thesis
    by (simp add: T_def D_def u_def h_def)
qed

lemma tolerance_eq: "16 * (u64 * X) + 16 * h64 = tolerance X"
  by (simp add: tolerance_def u64_def h64_def)

lemma fin_add_err:
  assumes "is_fin x" "is_fin y" "\<bar>val x + val y\<bar> \<le> 2 ^ 1023"
  shows "\<bar>val (x + y) - (val x + val y)\<bar> \<le> u64 * \<bar>val x + val y\<bar> + h64"
  using fin_add(2)[OF assms] by (simp add: u64_def h64_def)

lemma fin_mult_err:
  assumes "is_fin x" "is_fin y" "\<bar>val x * val y\<bar> \<le> 2 ^ 1023"
  shows "\<bar>val (x * y) - val x * val y\<bar> \<le> u64 * \<bar>val x * val y\<bar> + h64"
  using fin_mult(2)[OF assms] by (simp add: u64_def h64_def)

lemma fin_divide_err:
  assumes "is_fin x" "is_fin y" "val y \<noteq> 0" "\<bar>val x / val y\<bar> \<le> 2 ^ 1023"
  shows "\<bar>val (x / y) - val x / val y\<bar> \<le> u64 * \<bar>val x / val y\<bar> + h64"
  using fin_divide(2)[OF assms] by (simp add: u64_def h64_def)

lemma correct_estimate_error:
  assumes s: "sigma this = Fin s" "0 < s" "s \<le> 2 ^ 500"
    and m: "measurement_noise this = Fin m" "0 < m" "m \<le> 2 ^ 500"
    and ms: "1 \<le> m + s"
    and a: "mu this = Fin a" "\<bar>a\<bar> \<le> X" "\<bar>c\<bar> \<le> X" "X \<le> 2 ^ 500"
  shows "\<exists>this'. correct_by_measurement this (Fin c) = Inr this' \<and> is_fin (mu this')
           \<and> \<bar>val (mu this') - (m * a + s * c) / (m + s)\<bar> \<le> tolerance X"
proof -
  define W :: real where "W = 2 ^ 1000"
  have W: "(2::real) ^ 500 * 2 ^ 500 \<le> W" "16 * W + 16 \<le> 2 ^ 1023" "1 \<le> W"
    "(2::real) ^ 500 + 2 ^ 500 \<le> W"
    by (simp_all add: W_def)
  define xA where "xA = Fin m * Fin a"
  define xB where "xB = Fin s * Fin c"
  define xS where "xS = xA + xB"
  define xD where "xD = Fin m + Fin s"
  define xR where "xR = xS / xD"
  have X0: "0 \<le> X"
    using a(2) by linarith
  have ma: "\<bar>m * a\<bar> \<le> W"
  proof -
    have "\<bar>m * a\<bar> = m * \<bar>a\<bar>"
      using m(2) by (simp add: abs_mult)
    also have "\<dots> \<le> 2 ^ 500 * 2 ^ 500"
      using m a by (intro mult_mono) simp_all
    finally show ?thesis
      using W(1) by linarith
  qed
  have sc: "\<bar>s * c\<bar> \<le> W"
  proof -
    have "\<bar>s * c\<bar> = s * \<bar>c\<bar>"
      using s(2) by (simp add: abs_mult)
    also have "\<dots> \<le> 2 ^ 500 * 2 ^ 500"
      using s a by (intro mult_mono) simp_all
    finally show ?thesis
      using W(1) by linarith
  qed
  have bA: "\<bar>val (Fin m) * val (Fin a)\<bar> \<le> 2 ^ 1023"
    using ma W(2,3) by simp
  have fA: "is_fin xA" and eA: "\<bar>val xA - m * a\<bar> \<le> u64 * \<bar>m * a\<bar> + h64"
    using fin_mult(1)[OF _ _ bA] fin_mult_err[OF _ _ bA] by (simp_all add: xA_def)
  have bB: "\<bar>val (Fin s) * val (Fin c)\<bar> \<le> 2 ^ 1023"
    using sc W(2,3) by simp
  have fB: "is_fin xB" and eB: "\<bar>val xB - s * c\<bar> \<le> u64 * \<bar>s * c\<bar> + h64"
    using fin_mult(1)[OF _ _ bB] fin_mult_err[OF _ _ bB] by (simp_all add: xB_def)
  have vAB: "\<bar>val xA + val xB\<bar> \<le> 4 * W + 2"
    using err_abs[OF eA] err_abs[OF eB] ma sc by linarith
  then have bS: "\<bar>val xA + val xB\<bar> \<le> 2 ^ 1023"
    using W(2,3) by linarith
  have fS: "is_fin xS" and eS: "\<bar>val xS - (val xA + val xB)\<bar> \<le> u64 * \<bar>val xA + val xB\<bar> + h64"
    using fin_add(1)[OF fA fB bS] fin_add_err[OF fA fB bS] by (simp_all add: xS_def)
  have "\<bar>m + s\<bar> \<le> W"
    using m s W(4) by linarith
  then have bD: "\<bar>val (Fin m) + val (Fin s)\<bar> \<le> 2 ^ 1023"
    using W(2,3) by simp
  have fD: "is_fin xD" and eD: "\<bar>val xD - (m + s)\<bar> \<le> u64 * \<bar>m + s\<bar> + h64"
    using fin_add(1)[OF _ _ bD] fin_add_err[OF _ _ bD] by (simp_all add: xD_def)
  have "u64 * \<bar>m + s\<bar> \<le> (1 / 8) * \<bar>m + s\<bar>"
    using u64_h64 by (intro mult_right_mono) simp_all
  then have vD: "1 / 2 \<le> val xD"
    using eD ms u64_h64(4) by argo
  have vS: "\<bar>val xS\<bar> \<le> 8 * W + 5"
    using err_abs[OF eS] vAB by argo
  have "\<bar>val xS / val xD\<bar> = \<bar>val xS\<bar> / val xD"
    using vD by simp
  also have "\<dots> \<le> \<bar>val xS\<bar> / (1 / 2)"
    using vD by (intro divide_left_mono) simp_all
  also have "\<dots> \<le> 16 * W + 10"
    using vS by simp
  finally have bR: "\<bar>val xS / val xD\<bar> \<le> 2 ^ 1023"
    using W(2) by linarith
  have nz: "val xD \<noteq> 0"
    using vD by linarith
  have fR: "is_fin xR" and eR: "\<bar>val xR - val xS / val xD\<bar> \<le> u64 * \<bar>val xS / val xD\<bar> + h64"
    using fin_divide(1)[OF fS fD nz bR] fin_divide_err[OF fS fD nz bR] by (simp_all add: xR_def)
  have "\<bar>val xR - (m * a + s * c) / (m + s)\<bar> \<le> 16 * (u64 * X) + 16 * h64"
    using m(2) s(2) ms a(2,3) eA eB eS eD eR by (rule fusion_error)
  then have "\<bar>val xR - (m * a + s * c) / (m + s)\<bar> \<le> tolerance X"
    by (simp only: tolerance_eq)
  moreover have "correct_by_measurement this (Fin c)
      = Inr (this\<lparr>mu := xR, sigma := 1 / (1 / Fin m + 1 / Fin s)\<rparr>)"
    using s(1) m(1) a(1)
    by (simp add: correct_by_measurement_def Let_def xR_def xS_def xA_def xB_def xD_def)
  ultimately show ?thesis
    using fR by simp
qed

lemma convex_between:
  fixes m s a c :: real
  assumes "0 < m" "0 < s"
  shows "min a c \<le> (m * a + s * c) / (m + s)" "(m * a + s * c) / (m + s) \<le> max a c"
proof -
  have pos: "0 < m + s"
    using assms by simp
  have "m * min a c \<le> m * a" and "s * min a c \<le> s * c"
    using assms by (simp_all add: mult_left_mono)
  then have "min a c * (m + s) \<le> m * a + s * c"
    by (simp add: algebra_simps)
  then show "min a c \<le> (m * a + s * c) / (m + s)"
    using pos by (simp add: pos_le_divide_eq)
  have "m * a \<le> m * max a c" and "s * c \<le> s * max a c"
    using assms by (simp_all add: mult_left_mono)
  then have "m * a + s * c \<le> max a c * (m + s)"
    by (simp add: algebra_simps)
  then show "(m * a + s * c) / (m + s) \<le> max a c"
    using pos by (simp add: pos_divide_le_eq)
qed

section \<open>The filter's claims\<close>

text \<open>
  Claim C1. For every filter and every measurement \<open>z\<close>, \<^verbatim>\<open>correct_by_measurement\<close>
  returns the filter whose estimate is
  \<open>(measurement_noise \<cdot> mu + sigma \<cdot> z) / (measurement_noise + sigma)\<close> and whose uncertainty
  is \<open>1 / (1 / measurement_noise + 1 / sigma)\<close>, both formulas evaluated in \<^verbatim>\<open>double\<close>
  arithmetic on the values before the call; the two noise parameters are the old ones.
\<close>

theorem correct_by_measurement_formulas:
  "correct_by_measurement this z =
     Inr (this\<lparr>mu := (measurement_noise this * mu this + sigma this * z)
                        / (measurement_noise this + sigma this),
               sigma := 1 / (1 / measurement_noise this + 1 / sigma this)\<rparr>)"
  by (simp add: correct_by_measurement_def Let_def)

text \<open>
  On the demo's initial filter and the measurement 7 the two formulas give the doubles
  nearest to \<open>221 / 43\<close> and \<open>30 / 43\<close>.
\<close>

lemma correct_by_measurement_example:
  "correct_by_measurement
     \<lparr>mu = Fin 5, sigma = Fin (3 / 4), process_noise = Fin 10, measurement_noise = Fin 10\<rparr>
     (Fin 7)
   = Inr \<lparr>mu = Fin (1446650461698953 / 2 ^ 48), sigma = Fin (6284092503307669 / 2 ^ 53),
          process_noise = Fin 10, measurement_noise = Fin 10\<rparr>"
  by (simp add: correct_by_measurement_def ev)

text \<open>
  Claim C2. For every filter and every control value \<open>u\<close> (infinities and NaN included),
  \<^verbatim>\<open>predict\<close> returns, without any error, the filter with the estimate \<open>mu + u\<close> and the
  uncertainty \<open>sigma + process_noise\<close>; the two noise parameters are the old ones.
\<close>

theorem predict_updates:
  "predict this u = Inr (this\<lparr>mu := mu this + u, sigma := sigma this + process_noise this\<rparr>)
   \<and> (\<exists>this'. predict this u = Inr this'
          \<and> process_noise this' = process_noise this
          \<and> measurement_noise this' = measurement_noise this)"
  by (simp add: predict_def Let_def)

text \<open>
  Against claim C3 as it is written: a measurement noise of zero, and a negative one, are
  accepted; no \<open>InvalidParameter\<close> comes back.
\<close>

theorem ctor_accepts_zero_measurement_noise:
  "kalman_filter_1d_ctor (Fin 5) (Fin (3 / 4)) (Fin 10) (Fin 0) \<noteq> Inl InvalidParameter
   \<and> kalman_filter_1d_ctor (Fin 5) (Fin (3 / 4)) (Fin 10) (Fin (- 2)) \<noteq> Inl InvalidParameter"
  by (simp add: kalman_filter_1d_ctor_def)

text \<open>
  Claim C3, as the code has it. The constructor checks nothing: for every four values, a
  measurement noise of zero or below included, it returns a filter that stores exactly the
  four values.
\<close>

theorem ctor_never_fails:
  "kalman_filter_1d_ctor a b p m =
     Inr \<lparr>mu = a, sigma = b, process_noise = p, measurement_noise = m\<rparr>"
  by (simp add: kalman_filter_1d_ctor_def)

text \<open>
  Against claim C4 as it is written: with uncertainty 0 the correction step returns a
  filter, not an \<open>InvalidState\<close>.
\<close>

theorem correct_zero_uncertainty_no_error:
  "correct_by_measurement
     \<lparr>mu = Fin 5, sigma = Fin 0, process_noise = Fin 10, measurement_noise = Fin 10\<rparr> (Fin 7)
   \<noteq> Inl InvalidState"
  by (simp add: correct_by_measurement_def Let_def)

text \<open>
  Claim C4, as the code has it. \<^verbatim>\<open>correct_by_measurement\<close> has no guard and no error. On
  a filter whose uncertainty is a zero of either sign and whose measurement noise is at
  least \<open>2 powi -1022\<close> it returns a filter; the uncertainty is the same zero again, since
  \<open>1 / sigma\<close> is an infinity and \<open>1 / (1 / measurement_noise + \<infinity>)\<close> a zero; and the
  estimate is what the first formula gives in \<^verbatim>\<open>double\<close> arithmetic, be it a finite
  number, an infinity or a NaN.
\<close>

theorem correct_zero_uncertainty_returns:
  assumes "sigma this = Fin 0 \<or> sigma this = NZero"
    and "measurement_noise this = Fin m" and "1 / 2 ^ 1022 \<le> m"
  shows "\<exists>this'. correct_by_measurement this z = Inr this' \<and> sigma this' = sigma this
          \<and> mu this' = (measurement_noise this * mu this + sigma this * z)
                          / (measurement_noise this + sigma this)"
  using assms by (rule correct_zero)

theorem correct_zero_uncertainty_returns_witness:
  "(1::real) / 2 ^ 1022 \<le> 2 ^ 512
   \<and> (\<exists>this'.
        correct_by_measurement
          \<lparr>mu = Fin (2 ^ 512), sigma = Fin 0, process_noise = Fin 10,
             measurement_noise = Fin (2 ^ 512)\<rparr> (Fin 7) = Inr this'
        \<and> sigma this' = Fin 0 \<and> mu this' = PInf)"
proof -
  let ?t = "\<lparr>mu = Fin (2 ^ 512), sigma = Fin 0, process_noise = Fin 10,
              measurement_noise = Fin (2 ^ 512)\<rparr>"
  have h: "(1::real) / 2 ^ 1022 \<le> 2 ^ 512"
    by simp
  have e: "(Fin (2 ^ 512) * Fin (2 ^ 512) + Fin 0 * Fin 7) / (Fin (2 ^ 512) + Fin 0) = PInf"
    by (simp add: ev)
  obtain this' where "correct_by_measurement ?t (Fin 7) = Inr this'" "sigma this' = sigma ?t"
      "mu this' = (measurement_noise ?t * mu ?t + sigma ?t * Fin 7)
                    / (measurement_noise ?t + sigma ?t)"
    using correct_zero_uncertainty_returns[of ?t "2 ^ 512" "Fin 7"] h by auto
  then have "correct_by_measurement ?t (Fin 7) = Inr this' \<and> sigma this' = Fin 0 \<and> mu this' = PInf"
    using e by simp
  then show ?thesis
    using h by blast
qed







text \<open>
  Against claim C7 as it is written: with uncertainty and measurement noise 3, estimate 3
  and measurement \<open>2 ^ 52 + 3\<close> the product \<open>3 \<cdot> z\<close> is rounded, and the new estimate is
  half a unit below the mean \<open>(3 + z) / 2\<close>, which is a double and is what
  \<open>(mu + z) / 2\<close> gives in \<^verbatim>\<open>double\<close> arithmetic.
\<close>

theorem correct_equal_noise_not_mean:
  "is_double (Fin (2 ^ 52 + 3))
   \<and> correct_by_measurement
       \<lparr>mu = Fin 3, sigma = Fin 3, process_noise = Fin 10, measurement_noise = Fin 3\<rparr>
       (Fin (2 ^ 52 + 3))
     = Inr \<lparr>mu = Fin ((3 + (2 ^ 52 + 3)) / 2 - 1 / 2), sigma = Fin (3 / 2),
            process_noise = Fin 10, measurement_noise = Fin 3\<rparr>
   \<and> (Fin 3 + Fin (2 ^ 52 + 3)) / Fin 2 = Fin ((3 + (2 ^ 52 + 3)) / 2)"
  by (simp add: correct_by_measurement_def ev)

text \<open>
  Claim C7, as the code has it. Let the measurement noise equal the uncertainty \<open>b\<close>,
  with \<open>1/2 \<le> b \<le> 2 ^ 500\<close>, and let the estimate \<open>a\<close> and the measurement \<open>c\<close> be at
  most \<open>2 ^ 500\<close> in magnitude. Then the estimate after \<^verbatim>\<open>correct_by_measurement\<close> is
  finite and differs from the mean \<open>(a + c) / 2\<close> by at most
  \<open>max |a| |c| / 2 ^ 49 + 1 / 2 ^ 1071\<close>.
\<close>

theorem correct_equal_noise_mean_tolerance:
  assumes "sigma this = Fin b" and "1 / 2 \<le> b" and "b \<le> 2 ^ 500"
    and "measurement_noise this = sigma this"
    and "mu this = Fin a" and "\<bar>a\<bar> \<le> 2 ^ 500" and "\<bar>c\<bar> \<le> 2 ^ 500"
  shows "\<exists>this'. correct_by_measurement this (Fin c) = Inr this' \<and> is_fin (mu this')
           \<and> \<bar>val (mu this') - (a + c) / 2\<bar> \<le> tolerance (max \<bar>a\<bar> \<bar>c\<bar>)"
proof -
  let ?X = "max \<bar>a\<bar> \<bar>c\<bar>"
  have X: "\<bar>a\<bar> \<le> ?X" "\<bar>c\<bar> \<le> ?X" "?X \<le> 2 ^ 500"
    using assms(6,7) by simp_all
  have b: "0 < b" "1 \<le> b + b"
    using assms(2) by linarith+
  have mn: "measurement_noise this = Fin b"
    using assms(1,4) by simp
  obtain this' where t: "correct_by_measurement this (Fin c) = Inr this'" "is_fin (mu this')"
      "\<bar>val (mu this') - (b * a + b * c) / (b + b)\<bar> \<le> tolerance ?X"
    using correct_estimate_error[OF assms(1) b(1) assms(3) mn b(1) assms(3) b(2) assms(5) X]
    by blast
  have eq: "(b * a + b * c) / (b + b) = (a + c) / 2"
    using b(1) by (simp add: field_simps)
  show ?thesis
    using t(1,2) t(3)[unfolded eq] by blast
qed

theorem correct_equal_noise_mean_tolerance_witness:
  "(1::real) / 2 \<le> 3 \<and> (3::real) \<le> 2 ^ 500 \<and> \<bar>3 :: real\<bar> \<le> 2 ^ 500
   \<and> \<bar>2 ^ 52 + 3 :: real\<bar> \<le> 2 ^ 500
   \<and> (\<exists>this'.
        correct_by_measurement
          \<lparr>mu = Fin 3, sigma = Fin 3, process_noise = Fin 10, measurement_noise = Fin 3\<rparr>
          (Fin (2 ^ 52 + 3)) = Inr this'
        \<and> is_fin (mu this')
        \<and> \<bar>val (mu this') - (3 + (2 ^ 52 + 3)) / 2\<bar> \<le> tolerance (max \<bar>3\<bar> \<bar>2 ^ 52 + 3\<bar>))"
  using correct_equal_noise_mean_tolerance
    [of "\<lparr>mu = Fin 3, sigma = Fin 3, process_noise = Fin 10, measurement_noise = Fin 3\<rparr>"
        3 3 "2 ^ 52 + 3"]
  by simp

text \<open>
  Against claim C10 as it is written: with estimate and measurement both \<open>2 ^ 53 - 1\<close>,
  uncertainty 2 and measurement noise 3, the new estimate is \<open>2 ^ 53 - 2\<close>, below both.
\<close>

theorem correct_estimate_outside:
  "is_double (Fin (2 ^ 53 - 1))
   \<and> mu (projr (correct_by_measurement
        \<lparr>mu = Fin (2 ^ 53 - 1), sigma = Fin 2, process_noise = Fin 10, measurement_noise = Fin 3\<rparr>
        (Fin (2 ^ 53 - 1)))) = Fin (2 ^ 53 - 2)
   \<and> (2 ^ 53 - 2 :: real) < min (2 ^ 53 - 1) (2 ^ 53 - 1)"
  by (simp add: correct_by_measurement_def ev)

text \<open>
  Claim C10, as the code has it. Let the uncertainty and the measurement noise be
  positive, each at most \<open>2 ^ 500\<close> and together at least 1, and let the estimate \<open>a\<close>
  and the measurement \<open>c\<close> be at most \<open>2 ^ 500\<close> in magnitude. Then the estimate after
  \<^verbatim>\<open>correct_by_measurement\<close> is finite and lies between \<open>min a c\<close> and \<open>max a c\<close>
  up to the tolerance \<open>max |a| |c| / 2 ^ 49 + 1 / 2 ^ 1071\<close> on either side.
\<close>

theorem correct_estimate_between_tolerance:
  assumes "sigma this = Fin s" and "0 < s" and "s \<le> 2 ^ 500"
    and "measurement_noise this = Fin m" and "0 < m" and "m \<le> 2 ^ 500"
    and "1 \<le> m + s"
    and "mu this = Fin a" and "\<bar>a\<bar> \<le> 2 ^ 500" and "\<bar>c\<bar> \<le> 2 ^ 500"
  shows "\<exists>this'. correct_by_measurement this (Fin c) = Inr this' \<and> is_fin (mu this')
           \<and> min a c - tolerance (max \<bar>a\<bar> \<bar>c\<bar>) \<le> val (mu this')
           \<and> val (mu this') \<le> max a c + tolerance (max \<bar>a\<bar> \<bar>c\<bar>)"
proof -
  let ?X = "max \<bar>a\<bar> \<bar>c\<bar>"
  have X: "\<bar>a\<bar> \<le> ?X" "\<bar>c\<bar> \<le> ?X" "?X \<le> 2 ^ 500"
    using assms(9,10) by simp_all
  obtain this' where t: "correct_by_measurement this (Fin c) = Inr this'" "is_fin (mu this')"
      "\<bar>val (mu this') - (m * a + s * c) / (m + s)\<bar> \<le> tolerance ?X"
    using correct_estimate_error[OF assms(1-8) X] by blast
  define tl where "tl = tolerance ?X"
  define T where "T = (m * a + s * c) / (m + s)"
  define lo where "lo = min a c"
  define hi where "hi = max a c"
  have "\<bar>val (mu this') - T\<bar> \<le> tl" "lo \<le> T" "T \<le> hi"
    using t(3) convex_between[OF assms(5,2), of a c] by (simp_all add: tl_def T_def lo_def hi_def)
  then have "lo - tl \<le> val (mu this') \<and> val (mu this') \<le> hi + tl"
    by (simp add: abs_le_iff)
  then show ?thesis
    using t(1,2) unfolding tl_def lo_def hi_def by blast
qed

theorem correct_estimate_between_tolerance_witness:
  "(0::real) < 2 \<and> (2::real) \<le> 2 ^ 500 \<and> (0::real) < 3 \<and> (3::real) \<le> 2 ^ 500
   \<and> (1::real) \<le> 3 + 2 \<and> \<bar>2 ^ 53 - 1 :: real\<bar> \<le> 2 ^ 500
   \<and> (\<exists>this'.
        correct_by_measurement
          \<lparr>mu = Fin (2 ^ 53 - 1), sigma = Fin 2, process_noise = Fin 10,
             measurement_noise = Fin 3\<rparr>
          (Fin (2 ^ 53 - 1)) = Inr this'
        \<and> is_fin (mu this')
        \<and> min (2 ^ 53 - 1) (2 ^ 53 - 1) - tolerance (max \<bar>2 ^ 53 - 1\<bar> \<bar>2 ^ 53 - 1\<bar>)
            \<le> val (mu this')
        \<and> val (mu this')
            \<le> max (2 ^ 53 - 1) (2 ^ 53 - 1) + tolerance (max \<bar>2 ^ 53 - 1\<bar> \<bar>2 ^ 53 - 1\<bar>))"
  using correct_estimate_between_tolerance
    [of "\<lparr>mu = Fin (2 ^ 53 - 1), sigma = Fin 2, process_noise = Fin 10,
           measurement_noise = Fin 3\<rparr>" 2 3 "2 ^ 53 - 1" "2 ^ 53 - 1"]
  by simp

section \<open>The demo's claims\<close>

text \<open>
  Claim C9. One iteration of the loop, on any state, with \<open>n_p\<close> and \<open>n_m\<close> the next
  samples of the two noise sources: the naive estimate grows by the control 3; the ground
  truth grows by the control and \<open>n_p\<close>; the measurement is the new ground truth plus
  \<open>n_m\<close>; the filter is predicted with the control and then corrected with that
  measurement, neither call failing; each of the three averages becomes
  \<open>(avg\<cdot>N + |error|) / (N + 1)\<close> on the new values, with \<open>N\<close> the old step count; both
  noise sources have moved on by one sample and the step count is one higher.
\<close>

theorem loop_body_effect:
  "\<exists>f1 f2.
     predict (myFilter s) (Fin 3) = Inr f1
     \<and> correct_by_measurement f1 (main_mu s + Fin 3 + shd (generator s) + shd (generator2 s)) = Inr f2
     \<and> loop_body s =
        (let u = Fin 3;
             naive = mu_naive_est s + u;
             truth = main_mu s + u + shd (generator s);
             z = truth + shd (generator2 s);
             N = double_of_int (simulation_step s)
         in Inr (\<lparr>main_mu = truth, mu_naive_est = naive, myFilter = f2,
                  generator = stl (generator s), generator2 = stl (generator2 s),
                  simulation_step = simulation_step s + 1,
                  error_measurement = (error_measurement s * N + \<bar>z - truth\<bar>) / (N + 1),
                  error_naive = (error_naive s * N + \<bar>naive - truth\<bar>) / (N + 1),
                  error_kf = (error_kf s * N + \<bar>mu f2 - truth\<bar>) / (N + 1)\<rparr>, z))"
  by (cases s) (simp add: loop_body_def Let_def predict_def correct_by_measurement_def
        get_current_state_estimate_def)

text \<open>The loop of \<^verbatim>\<open>main\<close> is its body, run 100000 times from step 0.\<close>

lemma loop_body_step:
  "loop_body s = Inr (s', z) \<Longrightarrow> simulation_step s' = simulation_step s + 1"
  by (auto simp: loop_body_def Let_def predict_def correct_by_measurement_def)

lemma main_loop_steps:
  "simulation_step s \<le> 100000 \<Longrightarrow> main_loop s = steps (nat (100000 - simulation_step s)) s"
proof (induction s rule: main_loop.induct)
  case (1 s)
  show ?case
  proof (cases "simulation_step s < 100000")
    case False
    with "1.prems" show ?thesis by simp
  next
    case True
    then obtain k where k: "nat (100000 - simulation_step s) = Suc k"
      by (cases "nat (100000 - simulation_step s)") auto
    show ?thesis
    proof (cases "loop_body s")
      case (Inl e)
      with True k show ?thesis by simp
    next
      case (Inr p)
      obtain s' z where p: "p = (s', z)"
        by (cases p)
      have st: "simulation_step s' = simulation_step s + 1"
        using Inr p by (auto dest: loop_body_step)
      have "main_loop s' = steps (nat (100000 - simulation_step s')) s'"
        using "1.IH"[OF True Inr p[symmetric]] st True by simp
      moreover have "nat (100000 - simulation_step s') = k"
        using st k by simp
      ultimately show ?thesis
        using True Inr p k by simp
    qed
  qed
qed

lemma main_is_100000_steps:
  "main_init g g2 = Inr s0 \<Longrightarrow> main g g2 = steps 100000 s0"
proof -
  assume i: "main_init g g2 = Inr s0"
  then have "simulation_step s0 = 0"
    by (auto simp: main_init_def kalman_filter_1d_ctor_def Let_def)
  then show ?thesis
    using i main_loop_steps[of s0] by (simp add: main_def)
qed

end
